theory Spec2Isabelle
  imports Complex_Main "HOL-Library.Multiset" "HOL-Library.Log_Nat"
begin

section \<open>Configuration and data model\<close>

text \<open>
  The module reads four constants from \<^verbatim>\<open>lib/constants\<close>. Their values are not part of
  the sources at hand, so every function below takes them as a parameter.
  \<^verbatim>\<open>FEE_PERCENT\<close> is a JavaScript number and is given as a rational; the two caps and
  the fee floor are numbers that hold integers.
\<close>

record constants =
  FEE_PERCENT :: rat
  MAX_TIP_SATS :: int
  MAX_TIPS_WITHDRAWABLE :: int
  MINIMUM_FEE_SATS :: int

text \<open>
  A \<^verbatim>\<open>Tip\<close> row. \<^verbatim>\<open>limitTips\<close> is generic in \<^verbatim>\<open>T extends Tip\<close>, which is the
  record scheme \<open>'a tip_scheme\<close>: any record carrying at least these fields.
\<close>

record tip =
  tip_id :: string
  amount :: int

section \<open>JavaScript numbers\<close>

text \<open>
  A JavaScript number is an IEEE 754 binary64 value, and \<^verbatim>\<open>*\<close>, \<^verbatim>\<open>/\<close> and \<^verbatim>\<open>+\<close> return
  the exact result rounded to the nearest such value, a tie going to the neighbour with
  the even significand. A finite binary64 value is a rational, so the rounding is a
  function on rationals.

  \<^item> \<open>roundTiesToEven t\<close> is the integer nearest to \<open>t\<close>, the even one at a tie.
  \<^item> \<open>exponent x\<close>, for \<open>x > 0\<close>, is the \<open>e\<close> with \<open>2 powi e \<le> x < 2 powi (e + 1)\<close>,
    found from the bit lengths of numerator and denominator.
  \<^item> \<open>quantum x\<close> is the exponent of the spacing of the binary64 values around \<open>x\<close>:
    53 significant bits, and never below \<open>2 powi - 1074\<close>, the spacing of the subnormal
    values.
  \<^item> \<open>binary64 x\<close> is \<open>x\<close> rounded to a multiple of that spacing.

  From \<open>2 ^ 1024\<close> on, about \<open>1.8 * 10 ^ 308\<close>, binary64 has only \<^verbatim>\<open>Infinity\<close>;
  \<open>binary64\<close> goes on rounding to 53 bits there. No amount of sats comes near that
  range.
\<close>

definition roundTiesToEven :: "rat \<Rightarrow> int" where
  "roundTiesToEven t =
     (let f = \<lfloor>t\<rfloor>; r = t - of_int f
      in if r < 1 / 2 then f
         else if 1 / 2 < r then f + 1
         else if even f then f else f + 1)"

definition exponent :: "rat \<Rightarrow> int" where
  "exponent x =
     (let (n, d) = quotient_of x; t = bitlen n - bitlen d
      in if 2 powi t \<le> x then t else t - 1)"

definition quantum :: "rat \<Rightarrow> int" where
  "quantum x = max (exponent \<bar>x\<bar> - 52) (- 1074)"

definition binary64 :: "rat \<Rightarrow> rat" where
  "binary64 x =
     (if x = 0 then 0
      else of_int (roundTiesToEven (x / 2 powi quantum x)) * 2 powi quantum x)"

section \<open>Fee calculation\<close>

text \<open>
  \<^verbatim>\<open>calculateFee(amount)\<close>. An amount is a number that holds a whole count of sats.
  \<^verbatim>\<open>FEE_PERCENT\<close> is read as the binary64 value of what the constant is given as. The
  quotient \<^verbatim>\<open>FEE_PERCENT / 100\<close>, the two products and the sum
  \<^verbatim>\<open>amount + originalFee\<close> are each rounded to binary64; \<^verbatim>\<open>Math.ceil\<close> is the
  ceiling and \<^verbatim>\<open>Math.max\<close> the maximum, both exact. The local \<^verbatim>\<open>originalFee\<close> is a
  definition of its own, so that both steps can be named.
\<close>

definition originalFee :: "constants \<Rightarrow> int \<Rightarrow> int" where
  "originalFee c amt =
     max (MINIMUM_FEE_SATS c)
         \<lceil>binary64 (of_int amt * binary64 (binary64 (FEE_PERCENT c) / 100))\<rceil>"

definition calculateFee :: "constants \<Rightarrow> int \<Rightarrow> int" where
  "calculateFee c amt =
     max (MINIMUM_FEE_SATS c)
         \<lceil>binary64 (binary64 (of_int (amt + originalFee c amt))
                     * binary64 (binary64 (FEE_PERCENT c) / 100))\<rceil>"

section \<open>Tip limiting\<close>

text \<open>
  \<^verbatim>\<open>Array.prototype.sort(compareFn)\<close> is a stable sort that works in place: an element
  \<open>x\<close> goes before \<open>y\<close> when \<open>compareFn x y \<le> 0\<close>, and elements that compare equal
  keep their order. Any stable sort gives the same list, insertion is the simplest.
\<close>

fun insort_cmp :: "('a \<Rightarrow> 'a \<Rightarrow> int) \<Rightarrow> 'a \<Rightarrow> 'a list \<Rightarrow> 'a list" where
  "insort_cmp cmp x [] = [x]"
| "insort_cmp cmp x (y # ys) =
     (if cmp x y \<le> 0 then x # y # ys else y # insort_cmp cmp x ys)"

definition array_sort :: "('a \<Rightarrow> 'a \<Rightarrow> int) \<Rightarrow> 'a list \<Rightarrow> 'a list" where
  "array_sort cmp xs = foldr (insort_cmp cmp) xs []"

text \<open>
  \<^verbatim>\<open>xs.slice(0, e)\<close>: a negative end counts from the back of the array, and the end
  is clamped to the array's bounds. The result is a fresh array.
\<close>

definition slice0 :: "int \<Rightarrow> 'a list \<Rightarrow> 'a list" where
  "slice0 e xs =
     (let len = int (length xs);
          k = (if e < 0 then max (len + e) 0 else min e len)
      in take (nat k) xs)"

text \<open>
  The total the loop tests:
  \<^verbatim>\<open>limitedTips.map((tip) => tip.amount).reduce((a, b) => a + b, 0)\<close>.
\<close>

definition total_amount :: "'a tip_scheme list \<Rightarrow> int" where
  "total_amount limitedTips = foldl (\<lambda>a b. a + b) 0 (map amount limitedTips)"

text \<open>
  The \<^verbatim>\<open>while\<close> loop. \<^verbatim>\<open>pop\<close> removes the last element and leaves an empty array
  empty, which is \<open>butlast\<close>. Nothing in the loop bounds the number of rounds, so the
  loop is a partial function: \<open>None\<close> stands for a run that never returns.
\<close>

partial_function (option) trim_loop ::
  "int \<Rightarrow> 'a tip_scheme list \<Rightarrow> 'a tip_scheme list option" where
  "trim_loop cap limitedTips =
     (if total_amount limitedTips > cap then trim_loop cap (butlast limitedTips)
      else Some limitedTips)"

declare trim_loop.simps [code]

text \<open>
  \<^verbatim>\<open>limitTips(tips)\<close>. The sort rearranges the caller's array itself, the slice
  copies, and the loop pops from the copy. The model returns both arrays: first the
  caller's array as the call leaves it, then the array the call returns.
\<close>

definition limitTips ::
  "constants \<Rightarrow> 'a tip_scheme list \<Rightarrow> ('a tip_scheme list \<times> 'a tip_scheme list) option" where
  "limitTips c tips =
     (let tips' = array_sort (\<lambda>a b. amount b - amount a) tips
      in case trim_loop (MAX_TIP_SATS c) (slice0 (MAX_TIPS_WITHDRAWABLE c) tips') of
           None \<Rightarrow> None
         | Some limitedTips \<Rightarrow> Some (tips', limitedTips))"

text \<open>The constants of the specification's worked examples.\<close>

definition example_constants :: constants where
  "example_constants =
     \<lparr>FEE_PERCENT = 1, MAX_TIP_SATS = 1000, MAX_TIPS_WITHDRAWABLE = 3,
      MINIMUM_FEE_SATS = 2\<rparr>"

definition mk_tip :: "string \<Rightarrow> int \<Rightarrow> tip" where
  "mk_tip i a = \<lparr>tip_id = i, amount = a\<rparr>"

text \<open>A fee of seven percent: \<^verbatim>\<open>7 / 100\<close> is not a binary64 value.\<close>

definition seven_percent :: constants where
  "seven_percent =
     \<lparr>FEE_PERCENT = 7, MAX_TIP_SATS = 1000, MAX_TIPS_WITHDRAWABLE = 3,
      MINIMUM_FEE_SATS = 2\<rparr>"


section \<open>Facts about the rounding\<close>

lemma bitlen_powi_bounds:
  assumes "0 < n"
  shows "(2::rat) powi (bitlen n - 1) \<le> of_int n" and "of_int n < (2::rat) powi bitlen n"
proof -
  have b: "1 \<le> bitlen n"
    using assms bitlen_eq_zero_iff [of n] bitlen_nonneg [of n] by linarith
  have lo: "2 ^ nat (bitlen n - 1) \<le> n" and hi: "n < 2 ^ nat (bitlen n)"
    using bitlen_bounds [OF assms] by simp_all
  have "(of_int (2 ^ nat (bitlen n - 1)) :: rat) \<le> of_int n"
    using lo by (simp only: of_int_le_iff)
  then show "(2::rat) powi (bitlen n - 1) \<le> of_int n"
    using b by (simp add: power_int_def)
  have "(of_int n :: rat) < of_int (2 ^ nat (bitlen n))"
    using hi by (simp only: of_int_less_iff)
  then show "of_int n < (2::rat) powi bitlen n"
    using b by (simp add: power_int_def)
qed

lemma exponent_bounds:
  assumes "0 < x"
  shows "2 powi exponent x \<le> x" and "x < 2 powi (exponent x + 1)"
proof -
  obtain n d where nd: "quotient_of x = (n, d)"
    by (cases "quotient_of x")
  have d: "0 < d" using nd by (rule quotient_of_denom_pos)
  have x: "x = of_int n / of_int d" using nd by (rule quotient_of_div)
  have n: "0 < n"
    using assms d x by (simp add: zero_less_divide_iff)
  define t where "t = bitlen n - bitlen d"
  have e: "exponent x = (if 2 powi t \<le> x then t else t - 1)"
    by (simp add: exponent_def nd t_def)
  have dpos: "(0::rat) < of_int d" using d by simp
  have "x * of_int d = of_int n"
    using x d by simp
  also have "\<dots> < 2 powi bitlen n"
    by (rule bitlen_powi_bounds(2) [OF n])
  also have "\<dots> = 2 powi (t + 1) * 2 powi (bitlen d - 1)"
    by (simp add: t_def flip: power_int_add)
  also have "\<dots> \<le> 2 powi (t + 1) * of_int d"
    using bitlen_powi_bounds(1) [OF d] by (intro mult_left_mono) simp_all
  finally have hi: "x < 2 powi (t + 1)"
    using dpos by simp
  have "(2::rat) powi (t - 1) * of_int d < 2 powi (t - 1) * 2 powi bitlen d"
    using bitlen_powi_bounds(2) [OF d] by (intro mult_strict_left_mono) simp_all
  also have "\<dots> = 2 powi (bitlen n - 1)"
    by (simp add: t_def flip: power_int_add)
  also have "\<dots> \<le> of_int n"
    by (rule bitlen_powi_bounds(1) [OF n])
  also have "\<dots> = x * of_int d"
    using x d by simp
  finally have lo: "2 powi (t - 1) < x"
    using dpos by simp
  show "2 powi exponent x \<le> x"
    using lo by (simp add: e)
  show "x < 2 powi (exponent x + 1)"
    using hi by (auto simp: e not_le)
qed

lemma exponent_unique:
  assumes "2 powi e \<le> x" and "x < 2 powi (e + 1)"
  shows "exponent x = e"
proof -
  have pos: "0 < x"
    using assms(1) zero_less_power_int [of "2::rat" e] by linarith
  have "(2::rat) powi exponent x < 2 powi (e + 1)"
    using exponent_bounds(1) [OF pos] assms(2) by linarith
  then have a: "exponent x < e + 1"
    using power_int_increasing [of "e + 1" "exponent x" "2::rat"] by (cases "exponent x < e + 1") auto
  have "(2::rat) powi e < 2 powi (exponent x + 1)"
    using exponent_bounds(2) [OF pos] assms(1) by linarith
  then have b: "e < exponent x + 1"
    using power_int_increasing [of "exponent x + 1" e "2::rat"] by (cases "e < exponent x + 1") auto
  from a b show ?thesis by simp
qed

lemma exponent_mono:
  assumes "0 < x" and "x \<le> y"
  shows "exponent x \<le> exponent y"
proof (rule ccontr)
  assume "\<not> exponent x \<le> exponent y"
  then have "exponent y + 1 \<le> exponent x" by simp
  then have "(2::rat) powi (exponent y + 1) \<le> 2 powi exponent x"
    by (intro power_int_increasing) simp_all
  also have "\<dots> \<le> x" using assms(1) by (rule exponent_bounds(1))
  also have "\<dots> \<le> y" by (rule assms(2))
  also have "\<dots> < 2 powi (exponent y + 1)"
    using assms by (intro exponent_bounds(2)) simp
  finally show False by simp
qed

lemma roundTiesToEven_lower:
  assumes "of_int n \<le> t"
  shows "n \<le> roundTiesToEven t"
proof -
  have "n \<le> \<lfloor>t\<rfloor>"
    using assms by (simp add: le_floor_iff)
  moreover have "\<lfloor>t\<rfloor> \<le> roundTiesToEven t"
    by (simp add: roundTiesToEven_def Let_def)
  ultimately show ?thesis by simp
qed

lemma roundTiesToEven_upper:
  assumes "t \<le> of_int n"
  shows "roundTiesToEven t \<le> n"
proof (cases "t = of_int n")
  case True
  then show ?thesis by (simp add: roundTiesToEven_def)
next
  case False
  then have "t < of_int n" using assms by simp
  then have "\<lfloor>t\<rfloor> < n" by (simp add: floor_less_iff)
  then have "\<lfloor>t\<rfloor> + 1 \<le> n" by simp
  then show ?thesis
    by (auto simp: roundTiesToEven_def Let_def)
qed

lemma roundTiesToEven_of_int: "roundTiesToEven (of_int n) = n"
  by (simp add: roundTiesToEven_def)

lemma roundTiesToEven_mono:
  assumes "s \<le> t"
  shows "roundTiesToEven s \<le> roundTiesToEven t"
proof (cases "\<lfloor>s\<rfloor> = \<lfloor>t\<rfloor>")
  case True
  then show ?thesis
    using assms by (auto simp: roundTiesToEven_def Let_def)
next
  case False
  then have "\<lfloor>s\<rfloor> < \<lfloor>t\<rfloor>"
    using floor_mono [OF assms] by simp
  then have "\<lfloor>s\<rfloor> + 1 \<le> \<lfloor>t\<rfloor>" by simp
  moreover have "roundTiesToEven s \<le> \<lfloor>s\<rfloor> + 1"
    by (auto simp: roundTiesToEven_def Let_def)
  moreover have "\<lfloor>t\<rfloor> \<le> roundTiesToEven t"
    by (rule roundTiesToEven_lower) simp
  ultimately show ?thesis by linarith
qed


lemma roundTiesToEven_minus: "roundTiesToEven (- t) = - roundTiesToEven t"
proof (cases "t = of_int \<lfloor>t\<rfloor>")
  case True
  then obtain n where "t = of_int n" ..
  then show ?thesis
    by (simp add: roundTiesToEven_of_int flip: of_int_minus)
next
  case False
  then have fl: "\<lfloor>- t\<rfloor> = - \<lfloor>t\<rfloor> - 1"
    by (simp add: floor_minus ceiling_altdef)
  have r: "0 \<le> t - of_int \<lfloor>t\<rfloor>" "t - of_int \<lfloor>t\<rfloor> < 1"
    by linarith+
  show ?thesis
    unfolding roundTiesToEven_def Let_def fl
    by (auto simp: algebra_simps)
qed

lemma binary64_quantum:
  "binary64 x =
     (if x = 0 then 0
      else of_int (roundTiesToEven (x / 2 powi quantum x)) * 2 powi quantum x)"
  by (simp add: binary64_def)

lemma binary64_minus: "binary64 (- x) = - binary64 x"
  by (simp add: binary64_quantum quantum_def roundTiesToEven_minus flip: minus_divide_left)

lemma binary64_nonneg:
  assumes "0 \<le> x"
  shows "0 \<le> binary64 x"
proof -
  have "0 \<le> x / 2 powi quantum x"
    using assms by simp
  then have "0 \<le> roundTiesToEven (x / 2 powi quantum x)"
    by (intro roundTiesToEven_lower) simp
  then show ?thesis
    by (simp add: binary64_quantum)
qed

lemma binary64_mono_pos:
  assumes "0 < x" and "x \<le> y"
  shows "binary64 x \<le> binary64 y"
proof -
  have y: "0 < y" using assms by simp
  define ex ey where "ex = exponent x" and "ey = exponent y"
  define kx ky where "kx = quantum x" and "ky = quantum y"
  have kx: "kx = max (ex - 52) (- 1074)" and ky: "ky = max (ey - 52) (- 1074)"
    using assms(1) y by (simp_all add: kx_def ky_def ex_def ey_def quantum_def)
  have e: "ex \<le> ey"
    unfolding ex_def ey_def using assms by (rule exponent_mono)
  have fx: "binary64 x = of_int (roundTiesToEven (x / 2 powi kx)) * 2 powi kx"
    using assms(1) by (simp add: binary64_quantum kx_def)
  have fy: "binary64 y = of_int (roundTiesToEven (y / 2 powi ky)) * 2 powi ky"
    using y by (simp add: binary64_quantum ky_def)
  show ?thesis
  proof (cases "kx = ky")
    case True
    have "x / 2 powi ky \<le> y / 2 powi ky"
      using assms(2) by (simp add: divide_right_mono)
    then have "roundTiesToEven (x / 2 powi ky) \<le> roundTiesToEven (y / 2 powi ky)"
      by (rule roundTiesToEven_mono)
    then show ?thesis
      by (simp add: fx fy True)
  next
    case False
    then have lt: "kx < ky" and ky': "ky = ey - 52" and exy: "ex + 1 \<le> ey"
      using e kx ky by linarith+
    have ge: "0 \<le> ey - kx" using lt ky' by simp
    have "x < 2 powi (ex + 1)"
      unfolding ex_def using assms(1) by (rule exponent_bounds(2))
    also have "\<dots> \<le> 2 powi ey"
      using exy by (intro power_int_increasing) simp_all
    finally have "x / 2 powi kx \<le> 2 powi ey / 2 powi kx"
      by (simp add: divide_right_mono)
    also have "\<dots> = 2 powi (ey - kx)"
      by (simp add: power_int_diff)
    also have "\<dots> = of_int (2 ^ nat (ey - kx))"
      using ge by (simp add: power_int_def)
    finally have "roundTiesToEven (x / 2 powi kx) \<le> 2 ^ nat (ey - kx)"
      by (rule roundTiesToEven_upper)
    then have "(of_int (roundTiesToEven (x / 2 powi kx)) :: rat) \<le> of_int (2 ^ nat (ey - kx))"
      by (simp only: of_int_le_iff)
    also have "\<dots> = 2 powi (ey - kx)"
      using ge by (simp add: power_int_def)
    finally have "binary64 x \<le> 2 powi (ey - kx) * 2 powi kx"
      unfolding fx by (intro mult_right_mono) simp_all
    also have "\<dots> = 2 powi ey"
      by (simp flip: power_int_add)
    finally have up: "binary64 x \<le> 2 powi ey" .
    have "(of_int (2 ^ 52) :: rat) = 2 powi (ey - ky)"
      by (simp add: ky')
    also have "\<dots> = 2 powi ey / 2 powi ky"
      by (simp add: power_int_diff)
    also have "\<dots> \<le> y / 2 powi ky"
      unfolding ey_def using exponent_bounds(1) [OF y] by (simp add: divide_right_mono)
    finally have "2 ^ 52 \<le> roundTiesToEven (y / 2 powi ky)"
      by (rule roundTiesToEven_lower)
    then have "(of_int (2 ^ 52) :: rat) \<le> of_int (roundTiesToEven (y / 2 powi ky))"
      by (simp only: of_int_le_iff)
    then have "of_int (2 ^ 52) * 2 powi ky \<le> binary64 y"
      unfolding fy by (intro mult_right_mono) simp_all
    moreover have "(of_int (2 ^ 52) :: rat) * 2 powi ky = 2 powi ey"
      using power_int_add [of "2::rat" 52 ky] by (simp add: ky')
    ultimately have "2 powi ey \<le> binary64 y" by simp
    with up show ?thesis by simp
  qed
qed

lemma binary64_mono:
  assumes "x \<le> y"
  shows "binary64 x \<le> binary64 y"
proof -
  consider "0 < x" | "x \<le> 0" "0 \<le> y" | "y < 0" by linarith
  then show ?thesis
  proof cases
    case 1
    then show ?thesis using assms by (rule binary64_mono_pos)
  next
    case 2
    have "0 \<le> binary64 (- x)" using 2(1) by (intro binary64_nonneg) simp
    then have "binary64 x \<le> 0" by (simp add: binary64_minus)
    moreover have "0 \<le> binary64 y" using 2(2) by (rule binary64_nonneg)
    ultimately show ?thesis by simp
  next
    case 3
    then have "binary64 (- y) \<le> binary64 (- x)"
      using assms by (intro binary64_mono_pos) simp_all
    then show ?thesis by (simp add: binary64_minus)
  qed
qed

lemma binary64_zero: "binary64 0 = 0"
  by (simp add: binary64_def)

lemma binary64_one: "binary64 1 = 1"
  by code_simp


lemma binary64_fixes_pos:
  assumes "0 < n" and "n \<le> 2 ^ 53" and "- 1074 \<le> j"
  shows "binary64 (of_int n * 2 powi j) = of_int n * 2 powi j"
proof -
  define y :: rat where "y = of_int n * 2 powi j"
  have y: "0 < y" using assms(1) by (simp add: y_def)
  define k where "k = quantum y"
  have fy: "binary64 y = of_int (roundTiesToEven (y / 2 powi k)) * 2 powi k"
    using y by (simp add: binary64_quantum k_def)
  have "(of_int n :: rat) \<le> of_int (2 ^ 53)"
    using assms(2) by (simp only: of_int_le_iff)
  then have "y \<le> 2 powi 53 * 2 powi j"
    unfolding y_def by (intro mult_right_mono) simp_all
  then have top: "y \<le> 2 powi (53 + j)"
    by (simp add: power_int_add)
  have "(2::rat) powi exponent y \<le> 2 powi (53 + j)"
    using exponent_bounds(1) [OF y] top by linarith
  then have e: "exponent y \<le> 53 + j"
    using power_int_strict_increasing [of "53 + j" "exponent y" "2::rat"]
    by (cases "exponent y \<le> 53 + j") auto
  have k: "k = max (exponent y - 52) (- 1074)"
    using y by (simp add: k_def quantum_def)
  have "\<exists>i. y / 2 powi k = of_int i"
  proof (cases "k \<le> j")
    case True
    have "y / 2 powi k = of_int n * (2 powi j / 2 powi k)"
      by (simp add: y_def)
    also have "\<dots> = of_int n * 2 powi (j - k)"
      by (simp add: power_int_diff)
    also have "\<dots> = of_int (n * 2 ^ nat (j - k))"
      using True by (simp add: power_int_def)
    finally show ?thesis ..
  next
    case False
    then have ex: "exponent y = 53 + j" and kj: "k = j + 1"
      using k e assms(3) by linarith+
    have "(2::rat) powi (53 + j) \<le> y"
      using exponent_bounds(1) [OF y] by (simp add: ex)
    then have "y = 2 powi (53 + j)"
      using top by simp
    then have "y / 2 powi k = 2 powi (53 + j) / 2 powi (j + 1)"
      by (simp add: kj)
    also have "\<dots> = 2 powi (53 + j - (j + 1))"
      using power_int_diff [of "2::rat" "53 + j" "j + 1"] by simp
    also have "\<dots> = of_int (2 ^ 52)"
      by simp
    finally show ?thesis ..
  qed
  then obtain i where "y / 2 powi k = of_int i" ..
  then have "binary64 y = y / 2 powi k * 2 powi k"
    by (simp add: fy roundTiesToEven_of_int)
  then show ?thesis by (simp add: y_def)
qed

lemma binary64_fixes:
  assumes "\<bar>n\<bar> \<le> 2 ^ 53" and "- 1074 \<le> j"
  shows "binary64 (of_int n * 2 powi j) = of_int n * 2 powi j"
proof -
  consider "0 < n" | "n = 0" | "n < 0" by linarith
  then show ?thesis
  proof cases
    case 1
    then show ?thesis using assms by (intro binary64_fixes_pos) simp_all
  next
    case 2
    then show ?thesis by (simp add: binary64_zero)
  next
    case 3
    then have "binary64 (of_int (- n) * 2 powi j) = of_int (- n) * 2 powi j"
      using assms by (intro binary64_fixes_pos) simp_all
    then show ?thesis
      using binary64_minus [of "of_int n * 2 powi j"] by simp
  qed
qed

lemma binary64_of_int:
  assumes "\<bar>n\<bar> \<le> 2 ^ 53"
  shows "binary64 (of_int n) = of_int n"
  using binary64_fixes [OF assms, of 0] by simp

lemma quantum_lower: "- 1074 \<le> quantum x"
  by (simp add: quantum_def)

lemma binary64_significand:
  "\<bar>roundTiesToEven (x / 2 powi quantum x)\<bar> \<le> 2 ^ 53"
proof -
  have pos: "roundTiesToEven (x / 2 powi quantum x) \<le> 2 ^ 53
               \<and> 0 \<le> roundTiesToEven (x / 2 powi quantum x)" if x: "0 < x" for x
  proof -
    have "x < 2 powi (exponent x + 1)"
      using x by (rule exponent_bounds(2))
    also have "\<dots> \<le> 2 powi (quantum x + 53)"
      using x by (intro power_int_increasing) (simp_all add: quantum_def)
    also have "\<dots> = 2 powi 53 * 2 powi quantum x"
      by (simp add: power_int_add)
    finally have "x / 2 powi quantum x \<le> of_int (2 ^ 53)"
      by (simp add: divide_le_eq)
    then have "roundTiesToEven (x / 2 powi quantum x) \<le> 2 ^ 53"
      by (rule roundTiesToEven_upper)
    moreover have "0 \<le> x / 2 powi quantum x" using x by simp
    then have "0 \<le> roundTiesToEven (x / 2 powi quantum x)"
      by (intro roundTiesToEven_lower) simp
    ultimately show ?thesis by simp
  qed
  consider "0 < x" | "x = 0" | "x < 0" by linarith
  then show ?thesis
  proof cases
    case 1
    then show ?thesis using pos [of x] by simp
  next
    case 2
    then show ?thesis by (simp add: roundTiesToEven_def)
  next
    case 3
    have q: "quantum (- x) = quantum x" by (simp add: quantum_def)
    have "roundTiesToEven (- x / 2 powi quantum x) = - roundTiesToEven (x / 2 powi quantum x)"
      using roundTiesToEven_minus [of "x / 2 powi quantum x"] by simp
    then show ?thesis using pos [of "- x"] 3 by (simp add: q)
  qed
qed

text \<open>A value that \<open>binary64\<close> returns is a binary64 value: rounding it again changes nothing.\<close>

lemma binary64_idem: "binary64 (binary64 x) = binary64 x"
proof (cases "x = 0")
  case True
  then show ?thesis by (simp add: binary64_zero)
next
  case False
  then have "binary64 x = of_int (roundTiesToEven (x / 2 powi quantum x)) * 2 powi quantum x"
    by (simp add: binary64_quantum)
  then show ?thesis
    using binary64_fixes [OF binary64_significand quantum_lower, of x x] by simp
qed

section \<open>Facts about the fee\<close>

lemma fraction_nonneg:
  assumes "0 \<le> FEE_PERCENT c"
  shows "0 \<le> binary64 (binary64 (FEE_PERCENT c) / 100)"
  using binary64_nonneg [OF assms] by (intro binary64_nonneg) simp

lemma fraction_le_one:
  assumes "FEE_PERCENT c \<le> 100"
  shows "binary64 (binary64 (FEE_PERCENT c) / 100) \<le> 1"
proof -
  have "binary64 (FEE_PERCENT c) \<le> binary64 (of_int 100)"
    using assms by (intro binary64_mono) simp
  also have "\<dots> = of_int 100"
    by (rule binary64_of_int) simp
  finally have "binary64 (FEE_PERCENT c) / 100 \<le> 1"
    by simp
  then have "binary64 (binary64 (FEE_PERCENT c) / 100) \<le> binary64 1"
    by (rule binary64_mono)
  then show ?thesis by (simp add: binary64_one)
qed

lemma originalFee_mono:
  assumes "0 \<le> FEE_PERCENT c" and "a \<le> b"
  shows "originalFee c a \<le> originalFee c b"
proof -
  let ?q = "binary64 (binary64 (FEE_PERCENT c) / 100)"
  have "of_int a * ?q \<le> of_int b * ?q"
    using assms(2) fraction_nonneg [OF assms(1)] by (intro mult_right_mono) simp_all
  then have "binary64 (of_int a * ?q) \<le> binary64 (of_int b * ?q)"
    by (rule binary64_mono)
  then have "\<lceil>binary64 (of_int a * ?q)\<rceil> \<le> \<lceil>binary64 (of_int b * ?q)\<rceil>"
    by (rule ceiling_mono)
  then show ?thesis
    by (simp add: originalFee_def max.coboundedI2)
qed

lemma calculateFee_floor: "MINIMUM_FEE_SATS c \<le> calculateFee c amt"
  by (simp add: calculateFee_def)

text \<open>What the second step does reach: the fee covers the provisional total.\<close>

lemma calculateFee_covers_provisional:
  "\<lceil>binary64 (binary64 (of_int (amt + originalFee c amt))
              * binary64 (binary64 (FEE_PERCENT c) / 100))\<rceil> \<le> calculateFee c amt"
  by (simp add: calculateFee_def)

text \<open>
  The rounding shows in the result: seven percent of 100 sats is 7 sats, but the
  product of 100 and the binary64 value next to 0.07 rounds to a value just above 7, so
  the provisional fee of 100 sats is 8, and so is the fee of 93 sats.
\<close>

lemma originalFee_seven_percent:
  "originalFee seven_percent 100 = 8 \<and> \<lceil>(100::rat) * (7 / 100)\<rceil> = 7"
  by code_simp

lemma calculateFee_seven_percent:
  "originalFee seven_percent 93 = 7 \<and> calculateFee seven_percent 93 = 8"
  by code_simp

section \<open>Facts about sorting, slicing and the loop\<close>

lemma insort_cmp_amount:
  "insort_cmp (\<lambda>a b. amount b - amount a) x ys = insort_key (\<lambda>t. - amount t) x ys"
  by (induction ys) auto

lemma array_sort_amount:
  "array_sort (\<lambda>a b. amount b - amount a) xs = sort_key (\<lambda>t. - amount t) xs"
  by (induction xs) (simp_all add: array_sort_def sort_key_def insort_cmp_amount)

lemma desc_iff_sorted_neg:
  "sorted_wrt (\<lambda>a b. amount b \<le> amount a) xs \<longleftrightarrow> sorted (map (\<lambda>t. - amount t) xs)"
  by (simp add: sorted_map)

lemma array_sort_desc:
  "sorted_wrt (\<lambda>a b. amount b \<le> amount a) (array_sort (\<lambda>a b. amount b - amount a) xs)"
  by (simp add: desc_iff_sorted_neg array_sort_amount)

lemma array_sort_mset: "mset (array_sort (\<lambda>a b. amount b - amount a) xs) = mset xs"
  by (simp add: array_sort_amount)

lemma array_sort_stable:
  "filter (\<lambda>t. amount t = k) (array_sort (\<lambda>a b. amount b - amount a) xs)
     = filter (\<lambda>t. amount t = k) xs"
  using sort_key_stable [of "\<lambda>t. - amount t" "- k" xs]
  by (simp add: array_sort_amount)

lemma array_sort_fixed:
  "array_sort (\<lambda>a b. amount b - amount a) xs = xs
     \<longleftrightarrow> sorted_wrt (\<lambda>a b. amount b \<le> amount a) xs"
proof
  assume "array_sort (\<lambda>a b. amount b - amount a) xs = xs"
  then show "sorted_wrt (\<lambda>a b. amount b \<le> amount a) xs"
    using array_sort_desc [of xs] by simp
next
  assume "sorted_wrt (\<lambda>a b. amount b \<le> amount a) xs"
  then show "array_sort (\<lambda>a b. amount b - amount a) xs = xs"
    by (simp add: desc_iff_sorted_neg array_sort_amount sort_key_id_if_sorted)
qed

lemma foldl_plus_sum_list: "foldl (\<lambda>a b. a + b) (s::int) ns = s + sum_list ns"
  by (induction ns arbitrary: s) auto

lemma total_amount_sum_list: "total_amount xs = sum_list (map amount xs)"
  by (simp add: total_amount_def foldl_plus_sum_list)

lemma slice0_take: "\<exists>n\<le>length xs. slice0 e xs = take n xs"
proof -
  define n where "n = nat (if e < 0 then max (int (length xs) + e) 0 else min e (int (length xs)))"
  have "n \<le> length xs" and "slice0 e xs = take n xs"
    by (auto simp: n_def slice0_def Let_def)
  then show ?thesis by blast
qed

lemma slice0_length: "0 \<le> e \<Longrightarrow> int (length (slice0 e xs)) \<le> e"
  by (auto simp: slice0_def Let_def)

lemma slice0_all: "int (length xs) \<le> e \<Longrightarrow> slice0 e xs = xs"
  by (auto simp: slice0_def Let_def)

lemma trim_loop_stop: "total_amount xs \<le> cap \<Longrightarrow> trim_loop cap xs = Some xs"
  by (subst trim_loop.simps) simp

lemma trim_loop_drop:
  "cap < total_amount xs \<Longrightarrow> trim_loop cap xs = trim_loop cap (butlast xs)"
  by (subst trim_loop.simps) simp

text \<open>
  With a cap that is not negative the loop returns: the empty array has total \<open>0\<close>.
  It returns the longest prefix reached from the back whose total is within the cap.
\<close>

lemma trim_loop_returns:
  assumes "0 \<le> cap"
  shows "\<exists>k\<le>length xs. trim_loop cap xs = Some (take k xs)
           \<and> total_amount (take k xs) \<le> cap
           \<and> (\<forall>j. k < j \<and> j \<le> length xs \<longrightarrow> cap < total_amount (take j xs))"
proof (induction xs rule: rev_induct)
  case Nil
  have "total_amount ([] :: 'a tip_scheme list) \<le> cap"
    using assms by (simp add: total_amount_def)
  then show ?case
    by (simp add: trim_loop_stop)
next
  case (snoc x xs)
  show ?case
  proof (cases "cap < total_amount (xs @ [x])")
    case True
    from snoc obtain k where k: "k \<le> length xs" "trim_loop cap xs = Some (take k xs)"
      "total_amount (take k xs) \<le> cap"
      "\<forall>j. k < j \<and> j \<le> length xs \<longrightarrow> cap < total_amount (take j xs)"
      by blast
    have "trim_loop cap (xs @ [x]) = trim_loop cap xs"
      using True trim_loop_drop [of cap "xs @ [x]"] by simp
    moreover have "cap < total_amount (take j (xs @ [x]))"
      if "k < j" "j \<le> length (xs @ [x])" for j
    proof (cases "j \<le> length xs")
      case True
      then show ?thesis using k(4) that by simp
    next
      case False
      then have "take j (xs @ [x]) = xs @ [x]" using that by simp
      then show ?thesis using \<open>cap < total_amount (xs @ [x])\<close> by simp
    qed
    ultimately show ?thesis
      using k by (intro exI [of _ k]) simp
  next
    case False
    then show ?thesis
      by (intro exI [of _ "length (xs @ [x])"]) (simp add: trim_loop_stop)
  qed
qed

text \<open>
  With a negative cap the loop can run forever: on the empty array the total \<open>0\<close> stays
  above the cap and \<^verbatim>\<open>pop\<close> changes nothing.
\<close>

lemma trim_loop_empty_negative:
  assumes "cap < 0"
  shows "trim_loop cap ([] :: 'a tip_scheme list) = None"
proof (rule ccontr)
  assume "trim_loop cap ([] :: 'a tip_scheme list) \<noteq> None"
  then obtain ys :: "'a tip_scheme list" where ys: "trim_loop cap [] = Some ys"
    by auto
  have "cap < 0 \<longrightarrow> [] \<noteq> ([] :: 'a tip_scheme list)"
  proof (rule trim_loop.raw_induct [where P = "\<lambda>cap xs ys. cap < 0 \<longrightarrow> xs \<noteq> []", OF _ ys])
    fix f and cap :: int and xs ys :: "'a tip_scheme list"
    assume ih: "\<And>cap xs ys. f cap xs = Some ys \<Longrightarrow> cap < 0 \<longrightarrow> xs \<noteq> []"
      and step: "(if cap < total_amount xs then f cap (butlast xs) else Some xs) = Some ys"
    show "cap < 0 \<longrightarrow> xs \<noteq> []"
      using ih [of cap "butlast xs" ys] step
      by (auto simp: total_amount_def split: if_splits)
  qed
  with assms show False by simp
qed

text \<open>
  The shape of every run of \<^verbatim>\<open>limitTips\<close> under a cap that is not negative: the
  caller's array ends up sorted, and the returned array is a prefix of it.
\<close>

lemma limitTips_returns:
  assumes "0 \<le> MAX_TIP_SATS c"
  defines "S \<equiv> array_sort (\<lambda>a b. amount b - amount a)"
  shows "\<exists>k\<le>length tips. limitTips c tips = Some (S tips, take k (S tips))
           \<and> total_amount (take k (S tips)) \<le> MAX_TIP_SATS c
           \<and> k = length (take k (S tips))
           \<and> k \<le> length (slice0 (MAX_TIPS_WITHDRAWABLE c) (S tips))
           \<and> (\<forall>j. k < j \<and> j \<le> length (slice0 (MAX_TIPS_WITHDRAWABLE c) (S tips))
                  \<longrightarrow> MAX_TIP_SATS c < total_amount (take j (S tips)))"
proof -
  have len: "length (S tips) = length tips"
    by (simp add: S_def array_sort_amount)
  obtain n where n: "n \<le> length (S tips)"
      "slice0 (MAX_TIPS_WITHDRAWABLE c) (S tips) = take n (S tips)"
    using slice0_take by blast
  obtain k where k: "k \<le> length (take n (S tips))"
      "trim_loop (MAX_TIP_SATS c) (take n (S tips)) = Some (take k (take n (S tips)))"
      "total_amount (take k (take n (S tips))) \<le> MAX_TIP_SATS c"
      "\<forall>j. k < j \<and> j \<le> length (take n (S tips))
           \<longrightarrow> MAX_TIP_SATS c < total_amount (take j (take n (S tips)))"
    using trim_loop_returns [OF assms(1), of "take n (S tips)"] by blast
  have kn: "k \<le> n" using k(1) n(1) by simp
  then have tk: "take k (take n (S tips)) = take k (S tips)"
    by (simp add: min_def)
  have tj: "take j (take n (S tips)) = take j (S tips)"
    if "j \<le> length (take n (S tips))" for j
  proof -
    have "j \<le> n" using that by simp
    then show ?thesis by (simp add: min_absorb1)
  qed
  have "limitTips c tips = Some (S tips, take k (S tips))"
    using n(2) k(2) tk by (simp add: limitTips_def S_def Let_def)
  moreover have "total_amount (take k (S tips)) \<le> MAX_TIP_SATS c"
    using k(3) tk by simp
  moreover have "k = length (take k (S tips))"
    using kn n(1) by simp
  moreover have "k \<le> length (slice0 (MAX_TIPS_WITHDRAWABLE c) (S tips))"
    using k(1) n(2) by simp
  moreover have "\<forall>j. k < j \<and> j \<le> length (slice0 (MAX_TIPS_WITHDRAWABLE c) (S tips))
                  \<longrightarrow> MAX_TIP_SATS c < total_amount (take j (S tips))"
    using k(4) tj n(2) by auto
  moreover have "k \<le> length tips"
    using kn n(1) len by simp
  ultimately show ?thesis by blast
qed

lemma mset_take_subset: "mset (take k xs) \<subseteq># mset xs"
proof -
  have "mset xs = mset (take k xs) + mset (drop k xs)"
    by (simp flip: mset_append)
  then show ?thesis by simp
qed

section \<open>The fee: reserve, floor, monotonicity, examples\<close>

text \<open>
  Claim C1: for every amount \<open>\<ge> 0\<close> the returned fee is at least \<^verbatim>\<open>FEE_PERCENT\<close>
  percent, rounded up, of the amount plus the returned fee itself.

  The function does not reach this. Its second step takes the percentage of the amount
  plus the provisional fee, so the returned fee covers that total only. With a fee of
  one percent and a floor of 2 sats, an amount of 10000 sats gets the provisional fee
  100 and the final fee 101, while one percent of 10000 + 101 rounds up to 102. The
  comment in the source asks for the reserve that the claim states: the amount must be
  withdrawable leaving at least one percent.
\<close>

theorem calculateFee_reserve_short:
  "calculateFee example_constants 10000 = 101
   \<and> \<lceil>of_int (10000 + calculateFee example_constants 10000)
        * (FEE_PERCENT example_constants / 100)\<rceil> = 102"
  by code_simp

text \<open>
  Claim C5: the fee is monotone: for amounts \<open>0 \<le> amount1 \<le> amount2\<close> the fee of
  \<open>amount1\<close> is at most the fee of \<open>amount2\<close>. The percentage must not be negative.
  Each step of the function is monotone, the rounding of the products and of the sum
  included.
\<close>

theorem calculateFee_mono:
  assumes "0 \<le> FEE_PERCENT c" and "0 \<le> amount1" and "amount1 \<le> amount2"
  shows "calculateFee c amount1 \<le> calculateFee c amount2"
proof -
  let ?q = "binary64 (binary64 (FEE_PERCENT c) / 100)"
  let ?s1 = "binary64 (of_int (amount1 + originalFee c amount1))"
  let ?s2 = "binary64 (of_int (amount2 + originalFee c amount2))"
  have "amount1 + originalFee c amount1 \<le> amount2 + originalFee c amount2"
    using originalFee_mono [OF assms(1) assms(3)] assms(3) by simp
  then have "(of_int (amount1 + originalFee c amount1) :: rat)
               \<le> of_int (amount2 + originalFee c amount2)"
    by (simp only: of_int_le_iff)
  then have "?s1 \<le> ?s2"
    by (rule binary64_mono)
  then have "?s1 * ?q \<le> ?s2 * ?q"
    using fraction_nonneg [OF assms(1)] by (intro mult_right_mono) simp_all
  then have "binary64 (?s1 * ?q) \<le> binary64 (?s2 * ?q)"
    by (rule binary64_mono)
  then have "\<lceil>binary64 (?s1 * ?q)\<rceil> \<le> \<lceil>binary64 (?s2 * ?q)\<rceil>"
    by (rule ceiling_mono)
  then show ?thesis
    by (simp add: calculateFee_def max.coboundedI2)
qed

theorem calculateFee_mono_witness:
  "0 \<le> FEE_PERCENT seven_percent \<and> (0::int) \<le> 93 \<and> (93::int) \<le> 100
   \<and> calculateFee seven_percent 93 \<le> calculateFee seven_percent 100"
  using calculateFee_mono [of seven_percent 93 100]
  by (simp add: seven_percent_def)

text \<open>
  Claim C7: with a fee of one percent and a floor of 2 sats, the amount 100 has the
  provisional fee 2 and the fee 2, and the amount 1000 has the provisional fee 10 and the
  fee 11.
\<close>

theorem calculateFee_examples:
  "originalFee example_constants 100 = 2 \<and> calculateFee example_constants 100 = 2
   \<and> originalFee example_constants 1000 = 10 \<and> calculateFee example_constants 1000 = 11"
  by code_simp

text \<open>
  Claim C8: for every amount \<open>\<ge> 0\<close> the fee is at least \<^verbatim>\<open>MINIMUM_FEE_SATS\<close>, and at
  the amount 0 it is exactly \<^verbatim>\<open>MINIMUM_FEE_SATS\<close>, for a percentage strictly between
  0 and 100. The floor is a number that holds an integer which is not negative: it is
  its own binary64 value, as every integer up to \<open>2 ^ 53\<close> is.
\<close>

theorem calculateFee_minimum:
  assumes "0 < FEE_PERCENT c" and "FEE_PERCENT c < 100" and "0 \<le> MINIMUM_FEE_SATS c"
    and "binary64 (of_int (MINIMUM_FEE_SATS c)) = of_int (MINIMUM_FEE_SATS c)"
    and "0 \<le> amt"
  shows "MINIMUM_FEE_SATS c \<le> calculateFee c amt \<and> calculateFee c 0 = MINIMUM_FEE_SATS c"
proof
  show "MINIMUM_FEE_SATS c \<le> calculateFee c amt"
    by (rule calculateFee_floor)
next
  let ?m = "MINIMUM_FEE_SATS c"
  let ?q = "binary64 (binary64 (FEE_PERCENT c) / 100)"
  have orig: "originalFee c 0 = ?m"
    using assms(3) by (simp add: originalFee_def binary64_zero)
  have "?q \<le> 1"
    using assms(2) by (intro fraction_le_one) simp
  then have "of_int ?m * ?q \<le> of_int ?m * 1"
    using assms(3) by (intro mult_left_mono) simp_all
  then have "binary64 (of_int ?m * ?q) \<le> binary64 (of_int ?m)"
    using binary64_mono [of "of_int ?m * ?q" "of_int ?m"] by simp
  then have "binary64 (binary64 (of_int ?m) * ?q) \<le> of_int ?m"
    by (simp add: assms(4))
  then have "\<lceil>binary64 (binary64 (of_int ?m) * ?q)\<rceil> \<le> ?m"
    by (simp add: ceiling_le_iff)
  then show "calculateFee c 0 = ?m"
    by (simp add: calculateFee_def orig)
qed

theorem calculateFee_minimum_witness:
  "0 < FEE_PERCENT seven_percent \<and> FEE_PERCENT seven_percent < 100
   \<and> 0 \<le> MINIMUM_FEE_SATS seven_percent
   \<and> binary64 (of_int (MINIMUM_FEE_SATS seven_percent)) = of_int (MINIMUM_FEE_SATS seven_percent)
   \<and> (0::int) \<le> 100
   \<and> MINIMUM_FEE_SATS seven_percent \<le> calculateFee seven_percent 100
   \<and> calculateFee seven_percent 0 = 2"
proof -
  have rep: "binary64 (of_int (MINIMUM_FEE_SATS seven_percent))
               = of_int (MINIMUM_FEE_SATS seven_percent)"
    by (rule binary64_of_int) (simp add: seven_percent_def)
  show ?thesis
    using rep calculateFee_minimum [of seven_percent 100]
    by (simp add: seven_percent_def)
qed

section \<open>Tip limiting: the caller's array, the caps, the result\<close>

text \<open>
  Claim C2, as the specification states it: the call leaves the caller's list unchanged,
  the same elements in the same order. It does not: the sort works on the caller's
  array. Called on the tips of 1 and 2 sats, in this order, the call leaves the array
  holding the tip of 2 sats first.
\<close>

theorem limitTips_argument_counterexample:
  "limitTips example_constants [mk_tip ''a'' 1, mk_tip ''b'' 2]
     = Some ([mk_tip ''b'' 2, mk_tip ''a'' 1], [mk_tip ''b'' 2, mk_tip ''a'' 1])
   \<and> [mk_tip ''b'' 2, mk_tip ''a'' 1] \<noteq> [mk_tip ''a'' 1, mk_tip ''b'' 2]"
  by (simp add: limitTips_def Let_def example_constants_def mk_tip_def array_sort_def
      slice0_def total_amount_def trim_loop.simps)

text \<open>
  Claim C2, amended: the call adds, removes and alters no element of the caller's list,
  but leaves it sorted by amount, largest first, with tips of equal amount in the order
  they had; the list is unchanged exactly when it was in that order before the call.
  The cap on the total must not be negative, so that the call returns.
\<close>

theorem limitTips_argument_sorted_in_place:
  assumes "0 \<le> MAX_TIP_SATS c"
  shows "\<exists>tips' limitedTips. limitTips c tips = Some (tips', limitedTips)
           \<and> mset tips' = mset tips
           \<and> sorted_wrt (\<lambda>a b. amount b \<le> amount a) tips'
           \<and> (\<forall>k. filter (\<lambda>t. amount t = k) tips' = filter (\<lambda>t. amount t = k) tips)
           \<and> (tips' = tips \<longleftrightarrow> sorted_wrt (\<lambda>a b. amount b \<le> amount a) tips)"
proof -
  let ?S = "array_sort (\<lambda>a b. amount b - amount a) tips"
  obtain k where k: "limitTips c tips = Some (?S, take k ?S)"
    using limitTips_returns [OF assms, of tips] by blast
  have "mset ?S = mset tips"
    by (rule array_sort_mset)
  moreover have "sorted_wrt (\<lambda>a b. amount b \<le> amount a) ?S"
    by (rule array_sort_desc)
  moreover have "\<forall>k. filter (\<lambda>t. amount t = k) ?S = filter (\<lambda>t. amount t = k) tips"
    by (simp add: array_sort_stable)
  moreover have "?S = tips \<longleftrightarrow> sorted_wrt (\<lambda>a b. amount b \<le> amount a) tips"
    by (rule array_sort_fixed)
  ultimately show ?thesis
    using k by blast
qed

theorem limitTips_argument_sorted_in_place_witness:
  "0 \<le> MAX_TIP_SATS example_constants
   \<and> (\<exists>tips' limitedTips.
        limitTips example_constants [mk_tip ''a'' 1, mk_tip ''b'' 2] = Some (tips', limitedTips)
        \<and> mset tips' = mset [mk_tip ''a'' 1, mk_tip ''b'' 2]
        \<and> sorted_wrt (\<lambda>a b. amount b \<le> amount a) tips'
        \<and> tips' \<noteq> [mk_tip ''a'' 1, mk_tip ''b'' 2])"
proof -
  have cap: "0 \<le> MAX_TIP_SATS example_constants"
    by (simp add: example_constants_def)
  have unsorted: "\<not> sorted_wrt (\<lambda>a b. amount b \<le> amount a) [mk_tip ''a'' 1, mk_tip ''b'' 2]"
    by (simp add: mk_tip_def)
  show ?thesis
    using cap unsorted
      limitTips_argument_sorted_in_place [OF cap, of "[mk_tip ''a'' 1, mk_tip ''b'' 2]"]
    by blast
qed

text \<open>
  Claim C3: for every list of tips the call returns at most
  \<^verbatim>\<open>MAX_TIPS_WITHDRAWABLE\<close> tips and their amounts add up to at most \<^verbatim>\<open>MAX_TIP_SATS\<close>.
  Both caps are taken to be non-negative; the call then returns on every list.
\<close>

theorem limitTips_within_caps:
  assumes "0 \<le> MAX_TIP_SATS c" and "0 \<le> MAX_TIPS_WITHDRAWABLE c"
  shows "\<exists>tips' limitedTips. limitTips c tips = Some (tips', limitedTips)
           \<and> int (length limitedTips) \<le> MAX_TIPS_WITHDRAWABLE c
           \<and> sum_list (map amount limitedTips) \<le> MAX_TIP_SATS c"
proof -
  let ?S = "array_sort (\<lambda>a b. amount b - amount a) tips"
  obtain k where k: "limitTips c tips = Some (?S, take k ?S)"
      "total_amount (take k ?S) \<le> MAX_TIP_SATS c"
      "k = length (take k ?S)"
      "k \<le> length (slice0 (MAX_TIPS_WITHDRAWABLE c) ?S)"
    using limitTips_returns [OF assms(1), of tips] by blast
  have "int (length (take k ?S)) \<le> MAX_TIPS_WITHDRAWABLE c"
    using k(3) k(4) slice0_length [OF assms(2), of ?S] by linarith
  moreover have "sum_list (map amount (take k ?S)) \<le> MAX_TIP_SATS c"
    using k(2) by (simp only: total_amount_sum_list)
  ultimately show ?thesis
    using k(1) by blast
qed

theorem limitTips_within_caps_witness:
  "0 \<le> MAX_TIP_SATS example_constants \<and> 0 \<le> MAX_TIPS_WITHDRAWABLE example_constants
   \<and> (\<exists>tips' limitedTips.
        limitTips example_constants
          [mk_tip ''a'' 200, mk_tip ''b'' 500, mk_tip ''c'' 300, mk_tip ''d'' 400]
          = Some (tips', limitedTips)
        \<and> int (length limitedTips) \<le> 3 \<and> sum_list (map amount limitedTips) \<le> 1000)"
  using limitTips_within_caps [of example_constants
      "[mk_tip ''a'' 200, mk_tip ''b'' 500, mk_tip ''c'' 300, mk_tip ''d'' 400]"]
  by (simp add: example_constants_def)

text \<open>
  Claim C4: the call is idempotent: applied to the list it returned, it returns that
  list again, the same elements in the same order (and leaves it as it is). Both caps
  are taken to be non-negative.
\<close>

theorem limitTips_idempotent:
  assumes "0 \<le> MAX_TIP_SATS c" and "0 \<le> MAX_TIPS_WITHDRAWABLE c"
  shows "\<exists>tips' limitedTips. limitTips c tips = Some (tips', limitedTips)
           \<and> limitTips c limitedTips = Some (limitedTips, limitedTips)"
proof -
  let ?S = "array_sort (\<lambda>a b. amount b - amount a) tips"
  obtain k where k: "limitTips c tips = Some (?S, take k ?S)"
      "total_amount (take k ?S) \<le> MAX_TIP_SATS c"
      "k = length (take k ?S)"
      "k \<le> length (slice0 (MAX_TIPS_WITHDRAWABLE c) ?S)"
    using limitTips_returns [OF assms(1), of tips] by blast
  let ?r = "take k ?S"
  have "sorted_wrt (\<lambda>a b. amount b \<le> amount a) ?r"
    using array_sort_desc [of tips] by (rule sorted_wrt_take)
  then have sorted_again: "array_sort (\<lambda>a b. amount b - amount a) ?r = ?r"
    by (simp only: array_sort_fixed)
  have "int (length ?r) \<le> MAX_TIPS_WITHDRAWABLE c"
    using k(3) k(4) slice0_length [OF assms(2), of ?S] by linarith
  then have slice_again: "slice0 (MAX_TIPS_WITHDRAWABLE c) ?r = ?r"
    by (rule slice0_all)
  have loop_again: "trim_loop (MAX_TIP_SATS c) ?r = Some ?r"
    using k(2) by (rule trim_loop_stop)
  have "limitTips c ?r = Some (?r, ?r)"
    by (simp add: limitTips_def Let_def sorted_again slice_again loop_again)
  then show ?thesis
    using k(1) by blast
qed

theorem limitTips_idempotent_witness:
  "0 \<le> MAX_TIP_SATS example_constants \<and> 0 \<le> MAX_TIPS_WITHDRAWABLE example_constants
   \<and> (\<exists>tips' limitedTips.
        limitTips example_constants
          [mk_tip ''a'' 200, mk_tip ''b'' 500, mk_tip ''c'' 300, mk_tip ''d'' 400]
          = Some (tips', limitedTips)
        \<and> limitTips example_constants limitedTips = Some (limitedTips, limitedTips))"
  using limitTips_idempotent [of example_constants
      "[mk_tip ''a'' 200, mk_tip ''b'' 500, mk_tip ''c'' 300, mk_tip ''d'' 400]"]
  by (simp add: example_constants_def)

text \<open>
  Claim C6: with at most 3 tips and at most 1000 sats, the tips of 500, 400, 300 and 200
  sats are limited to the two tips of 500 and 400 sats, whatever their identifiers, and
  by these steps: sorted by amount, largest first, the list is as given; its first 3
  tips are those of 500, 400 and 300 sats, 1200 sats in all, which is above 1000; the
  loop drops the tip of 300 sats, and the remaining 900 sats are within 1000, so the loop
  returns the tips of 500 and 400 sats. The same tips come back when the list is given
  in another order.
\<close>

theorem limitTips_example:
  "array_sort (\<lambda>a b. amount b - amount a)
     [mk_tip i1 500, mk_tip i2 400, mk_tip i3 300, mk_tip i4 200]
     = [mk_tip i1 500, mk_tip i2 400, mk_tip i3 300, mk_tip i4 200]
   \<and> slice0 (MAX_TIPS_WITHDRAWABLE example_constants)
         [mk_tip i1 500, mk_tip i2 400, mk_tip i3 300, mk_tip i4 200]
     = [mk_tip i1 500, mk_tip i2 400, mk_tip i3 300]
   \<and> total_amount [mk_tip i1 500, mk_tip i2 400, mk_tip i3 300] = 1200
   \<and> MAX_TIP_SATS example_constants < 1200
   \<and> butlast [mk_tip i1 500, mk_tip i2 400, mk_tip i3 300] = [mk_tip i1 500, mk_tip i2 400]
   \<and> total_amount [mk_tip i1 500, mk_tip i2 400] = 900
   \<and> 900 \<le> MAX_TIP_SATS example_constants
   \<and> trim_loop (MAX_TIP_SATS example_constants)
         [mk_tip i1 500, mk_tip i2 400, mk_tip i3 300]
     = Some [mk_tip i1 500, mk_tip i2 400]
   \<and> limitTips example_constants
         [mk_tip i1 500, mk_tip i2 400, mk_tip i3 300, mk_tip i4 200]
     = Some ([mk_tip i1 500, mk_tip i2 400, mk_tip i3 300, mk_tip i4 200],
             [mk_tip i1 500, mk_tip i2 400])
   \<and> limitTips example_constants
         [mk_tip i4 200, mk_tip i1 500, mk_tip i3 300, mk_tip i2 400]
     = Some ([mk_tip i1 500, mk_tip i2 400, mk_tip i3 300, mk_tip i4 200],
             [mk_tip i1 500, mk_tip i2 400])"
  by (simp add: limitTips_def Let_def example_constants_def mk_tip_def array_sort_def
      slice0_def total_amount_def trim_loop.simps)

text \<open>
  Claim C9: the call fails on no list. It returns on every list, on the empty list it
  returns the empty list, and when every tip alone is above \<^verbatim>\<open>MAX_TIP_SATS\<close> the loop
  ends with the empty list. The cap on the total is taken to be non-negative.
\<close>

theorem limitTips_never_fails:
  fixes tips :: "'a tip_scheme list"
  assumes "0 \<le> MAX_TIP_SATS c"
  shows "(\<exists>tips' limitedTips. limitTips c tips = Some (tips', limitedTips))
         \<and> limitTips c ([] :: 'a tip_scheme list) = Some ([], [])
         \<and> ((\<forall>t\<in>set tips. MAX_TIP_SATS c < amount t)
              \<longrightarrow> (\<exists>tips'. limitTips c tips = Some (tips', [])))"
proof (intro conjI impI)
  show "\<exists>tips' limitedTips. limitTips c tips = Some (tips', limitedTips)"
    using limitTips_returns [OF assms, of tips] by blast
next
  have "total_amount ([] :: 'a tip_scheme list) \<le> MAX_TIP_SATS c"
    using assms by (simp add: total_amount_def)
  then have "trim_loop (MAX_TIP_SATS c) ([] :: 'a tip_scheme list) = Some []"
    by (rule trim_loop_stop)
  then show "limitTips c ([] :: 'a tip_scheme list) = Some ([], [])"
    by (simp add: limitTips_def array_sort_def slice0_def)
next
  assume big: "\<forall>t\<in>set tips. MAX_TIP_SATS c < amount t"
  let ?S = "array_sort (\<lambda>a b. amount b - amount a) tips"
  obtain k where k: "limitTips c tips = Some (?S, take k ?S)"
      "total_amount (take k ?S) \<le> MAX_TIP_SATS c"
    using limitTips_returns [OF assms, of tips] by blast
  have "set (take k ?S) \<subseteq> set tips"
    using set_take_subset [of k ?S] by (simp add: array_sort_amount)
  then have each: "\<forall>t\<in>set (take k ?S). MAX_TIP_SATS c < amount t"
    using big by blast
  have "take k ?S = []"
  proof (rule ccontr)
    assume "take k ?S \<noteq> []"
    then obtain t ts where ts: "take k ?S = t # ts"
      by (cases "take k ?S") auto
    have "\<forall>u\<in>set ts. 0 \<le> amount u"
      using each assms ts by auto
    then have "0 \<le> sum_list (map amount ts)"
      by (intro sum_list_nonneg) auto
    moreover have "MAX_TIP_SATS c < amount t"
      using each ts by simp
    ultimately have "MAX_TIP_SATS c < total_amount (take k ?S)"
      by (simp add: total_amount_sum_list ts)
    with k(2) show False by simp
  qed
  with k(1) show "\<exists>tips'. limitTips c tips = Some (tips', [])"
    by simp
qed

theorem limitTips_never_fails_witness:
  "0 \<le> MAX_TIP_SATS example_constants
   \<and> MAX_TIP_SATS example_constants < amount (mk_tip ''a'' 2000)
   \<and> MAX_TIP_SATS example_constants < amount (mk_tip ''b'' 1001)
   \<and> (\<exists>tips'. limitTips example_constants [mk_tip ''a'' 2000, mk_tip ''b'' 1001]
                = Some (tips', []))
   \<and> limitTips example_constants ([] :: tip list) = Some ([], [])"
  using limitTips_never_fails [of example_constants "[mk_tip ''a'' 2000, mk_tip ''b'' 1001]"]
  by (simp add: example_constants_def mk_tip_def)

text \<open>
  Claim C10: the returned list is sorted by amount, largest first, every element of it
  is an element of the input, and as a multiset it is contained in the input. The cap on
  the total is taken to be non-negative, so that the call returns.
\<close>

theorem limitTips_sorted_selection:
  assumes "0 \<le> MAX_TIP_SATS c"
  shows "\<exists>tips' limitedTips. limitTips c tips = Some (tips', limitedTips)
           \<and> sorted_wrt (\<lambda>a b. amount b \<le> amount a) limitedTips
           \<and> set limitedTips \<subseteq> set tips
           \<and> mset limitedTips \<subseteq># mset tips"
proof -
  let ?S = "array_sort (\<lambda>a b. amount b - amount a) tips"
  obtain k where k: "limitTips c tips = Some (?S, take k ?S)"
    using limitTips_returns [OF assms, of tips] by blast
  have "sorted_wrt (\<lambda>a b. amount b \<le> amount a) (take k ?S)"
    using array_sort_desc [of tips] by (rule sorted_wrt_take)
  moreover have sub: "mset (take k ?S) \<subseteq># mset tips"
    using mset_take_subset [of k ?S] by (simp only: array_sort_mset)
  moreover have "set (take k ?S) \<subseteq> set tips"
    using set_mset_mono [OF sub] by simp
  ultimately show ?thesis
    using k by blast
qed

theorem limitTips_sorted_selection_witness:
  "0 \<le> MAX_TIP_SATS example_constants
   \<and> (\<exists>tips' limitedTips.
        limitTips example_constants
          [mk_tip ''a'' 200, mk_tip ''b'' 500, mk_tip ''c'' 300, mk_tip ''d'' 400]
          = Some (tips', limitedTips)
        \<and> sorted_wrt (\<lambda>a b. amount b \<le> amount a) limitedTips
        \<and> set limitedTips
            \<subseteq> set [mk_tip ''a'' 200, mk_tip ''b'' 500, mk_tip ''c'' 300, mk_tip ''d'' 400]
        \<and> mset limitedTips
            \<subseteq># mset [mk_tip ''a'' 200, mk_tip ''b'' 500, mk_tip ''c'' 300, mk_tip ''d'' 400])"
  using limitTips_sorted_selection [of example_constants
      "[mk_tip ''a'' 200, mk_tip ''b'' 500, mk_tip ''c'' 300, mk_tip ''d'' 400]"]
  by (simp add: example_constants_def)

end
